theory Spec2Isabelle
  imports
    Complex_Main
    "HOL-Library.Sublist"
    "HOL-Library.Char_ord"
    "HOL-Library.List_Lexorder"
    "HOL-Library.Multiset"
begin

section \<open>cursor-git-tracker: the change handler of \<^verbatim>\<open>cursor-git-tracker.py\<close>\<close>

text \<open>
  The development follows \<^verbatim>\<open>CursorChangeHandler\<close>: the trackability predicate
  (\<^verbatim>\<open>should_track_file\<close>), the event entry point (\<^verbatim>\<open>on_modified\<close>), the
  flush decision (\<^verbatim>\<open>_try_commit\<close>), the commit producer (\<^verbatim>\<open>_create_commit\<close>), the
  backup rotation (\<^verbatim>\<open>_create_backup_branch\<close>) and its retention cleanup
  (\<^verbatim>\<open>_cleanup_backup_branches\<close>). What the handler reads from outside (the clock, the
  files on disk, the iteration order of a Python set) is an explicit input, and the
  git repository it drives is an explicit state.
\<close>

subsection \<open>Strings\<close>

text \<open>\<^verbatim>\<open>sep.join(xs)\<close>.\<close>

fun join :: "string \<Rightarrow> string list \<Rightarrow> string" where
  "join sep [] = []"
| "join sep [x] = x"
| "join sep (x # y # ys) = x @ sep @ join sep (y # ys)"

text \<open>\<^verbatim>\<open>s.startswith(p)\<close>.\<close>

definition startswith :: "string \<Rightarrow> string \<Rightarrow> bool" where
  "startswith s p = prefix p s"

text \<open>\<^verbatim>\<open>s.split(sep)\<close> for a one-character separator: the pieces between separators.\<close>

fun split_on :: "char \<Rightarrow> string \<Rightarrow> string list" where
  "split_on sep [] = [[]]"
| "split_on sep (c # cs) =
     (if c = sep then [] # split_on sep cs
      else (case split_on sep cs of
              [] \<Rightarrow> [[c]]
            | w # ws \<Rightarrow> (c # w) # ws))"

subsection \<open>\<^verbatim>\<open>os.path.relpath\<close> on POSIX paths\<close>

text \<open>
  \<^verbatim>\<open>posixpath.normpath\<close> drops empty and \<^verbatim>\<open>.\<close> components and resolves \<^verbatim>\<open>..\<close>
  against the components before it; at the root of an absolute path \<^verbatim>\<open>..\<close> is dropped.
  The handler is given absolute paths (\<^verbatim>\<open>main\<close> passes \<^verbatim>\<open>os.path.abspath\<close> of its
  argument, and the watcher reports paths below it), so \<^verbatim>\<open>abspath\<close> is \<^verbatim>\<open>normpath\<close>.
  The stack of components is kept reversed.
\<close>

fun norm_components :: "string list \<Rightarrow> string list \<Rightarrow> string list" where
  "norm_components acc [] = rev acc"
| "norm_components acc (x # xs) =
     (if x = [] \<or> x = ''.'' then norm_components acc xs
      else if x = ''..'' then norm_components (tl acc) xs
      else norm_components (x # acc) xs)"

definition abspath_list :: "string \<Rightarrow> string list" where
  "abspath_list p = norm_components [] (split_on (CHR ''/'') p)"

fun commonprefix :: "'a list \<Rightarrow> 'a list \<Rightarrow> 'a list" where
  "commonprefix (x # xs) (y # ys) = (if x = y then x # commonprefix xs ys else [])"
| "commonprefix _ _ = []"

definition relpath :: "string \<Rightarrow> string \<Rightarrow> string" where
  "relpath path start =
     (let start_list = abspath_list start;
          path_list = abspath_list path;
          i = length (commonprefix start_list path_list);
          rel_list = replicate (length start_list - i) ''..'' @ drop i path_list
      in if rel_list = [] then ''.'' else join ''/'' rel_list)"

subsection \<open>\<^verbatim>\<open>fnmatch.fnmatch\<close>\<close>

text \<open>
  \<^verbatim>\<open>fnmatch.translate\<close> turns a pattern into a regular expression: \<^verbatim>\<open>*\<close> becomes
  \<^verbatim>\<open>.*\<close>, \<^verbatim>\<open>?\<close> becomes \<^verbatim>\<open>.\<close>, \<^verbatim>\<open>[seq]\<close> a character class (negated by a leading
  \<^verbatim>\<open>!\<close>; a \<^verbatim>\<open>]\<close> right after the opening bracket or the \<^verbatim>\<open>!\<close> is a member; with no
  closing bracket the \<^verbatim>\<open>[\<close> is a literal), every other character itself. The
  expression is matched against the whole name, \<^verbatim>\<open>.\<close> matching every character, the
  separator \<^verbatim>\<open>/\<close> included: \<^verbatim>\<open>**\<close> is two stars, not a directory wildcard.
\<close>

datatype glob_tok = Star | AnyChar | Lit char | CharClass bool string

fun scan_close :: "string \<Rightarrow> nat option" where
  "scan_close [] = None"
| "scan_close (c # cs) = (if c = CHR '']'' then Some 0 else map_option Suc (scan_close cs))"

definition find_close :: "string \<Rightarrow> nat option" where
  "find_close p =
     (let j1 = (if take 1 p = ''!'' then 1 else 0);
          j2 = (if take 1 (drop j1 p) = '']'' then j1 + 1 else j1)
      in map_option (\<lambda>k. j2 + k) (scan_close (drop j2 p)))"

fun translate :: "string \<Rightarrow> glob_tok list" where
  "translate [] = []"
| "translate (c # p) =
     (if c = CHR ''*'' then Star # translate p
      else if c = CHR ''?'' then AnyChar # translate p
      else if c = CHR ''['' then
        (case find_close p of
           None \<Rightarrow> Lit c # translate p
         | Some j \<Rightarrow>
             (let stuff = take j p in
              (if take 1 stuff = ''!'' then CharClass True (drop 1 stuff)
               else CharClass False stuff) # translate (drop (Suc j) p)))
      else Lit c # translate p)"

text \<open>
  Membership in a character class: \<^verbatim>\<open>a-b\<close> is the range from \<^verbatim>\<open>a\<close> to \<^verbatim>\<open>b\<close> (empty
  when \<^verbatim>\<open>b\<close> is below \<^verbatim>\<open>a\<close>), a hyphen that is first or last is itself.
\<close>

fun in_class :: "char \<Rightarrow> string \<Rightarrow> bool" where
  "in_class c (a # h # b # rest) =
     (if h = CHR ''-'' then (a \<le> c \<and> c \<le> b) \<or> in_class c rest
      else c = a \<or> in_class c (h # b # rest))"
| "in_class c (a # rest) = (c = a \<or> in_class c rest)"
| "in_class c [] = False"

fun re_match :: "glob_tok list \<Rightarrow> string \<Rightarrow> bool" where
  "re_match [] s = (s = [])"
| "re_match (Star # ts) [] = re_match ts []"
| "re_match (Star # ts) (c # cs) = (re_match ts (c # cs) \<or> re_match (Star # ts) cs)"
| "re_match (AnyChar # ts) [] = False"
| "re_match (AnyChar # ts) (c # cs) = re_match ts cs"
| "re_match (Lit a # ts) [] = False"
| "re_match (Lit a # ts) (c # cs) = (a = c \<and> re_match ts cs)"
| "re_match (CharClass neg stuff # ts) [] = False"
| "re_match (CharClass neg stuff # ts) (c # cs) =
     ((in_class c stuff \<noteq> neg) \<and> re_match ts cs)"

definition fnmatch :: "string \<Rightarrow> string \<Rightarrow> bool" where
  "fnmatch name pat = re_match (translate pat) name"

subsection \<open>Configuration\<close>

record Config =
  file_patterns :: "string list"
  ignore_patterns :: "string list"
  backup_branch_prefix :: string
  max_backup_branches :: int
  commit_cooldown :: real
  create_backup_branches :: bool

definition DEFAULT_CONFIG :: Config where
  "DEFAULT_CONFIG = \<lparr>
     file_patterns =
       [''**/*.py'', ''**/*.js'', ''**/*.jsx'', ''**/*.ts'', ''**/*.tsx'', ''**/*.java'',
        ''**/*.cpp'', ''**/*.c'', ''**/*.h'', ''**/*.cs'', ''**/*.go'', ''**/*.rb'',
        ''**/*.php'', ''**/*.swift'', ''**/*.kt'',
        ''**/*.html'', ''**/*.css'', ''**/*.scss'', ''**/*.sass'', ''**/*.less'',
        ''**/*.vue'', ''**/*.svelte'',
        ''**/*.json'', ''**/*.yml'', ''**/*.yaml'', ''**/*.xml'', ''**/*.md'',
        ''**/*.markdown'', ''**/README*'', ''**/LICENSE*'', ''**/*.config.*''],
     ignore_patterns =
       [''**/.git/**'', ''**/.svn/**'', ''**/.hg/**'',
        ''**/node_modules/**'', ''**/venv/**'', ''**/.virtualenv/**'', ''**/vendor/**'',
        ''**/.bundle/**'',
        ''**/build/**'', ''**/dist/**'', ''**/out/**'', ''**/target/**'', ''**/bin/**'',
        ''**/obj/**'',
        ''**/__pycache__/**'', ''**/.cache/**'', ''**/.temp/**'', ''**/.tmp/**'',
        ''**/.idea/**'', ''**/.vscode/**'', ''**/.vs/**'',
        ''**/logs/**'', ''**/*.log'', ''**/debug/**'',
        ''**/.DS_Store'', ''**/Thumbs.db'', ''**/*.swp'', ''**/*.swo''],
     backup_branch_prefix = ''cursor-backup'',
     max_backup_branches = 5,
     commit_cooldown = 5,
     create_backup_branches = True \<rparr>"

subsection \<open>The trackability predicate\<close>

text \<open>
  \<^verbatim>\<open>should_track_file\<close>: the two \<^verbatim>\<open>for\<close> loops, each returning at its first match.
\<close>

fun any_match :: "string \<Rightarrow> string list \<Rightarrow> bool" where
  "any_match name [] = False"
| "any_match name (pattern # rest) = (if fnmatch name pattern then True else any_match name rest)"

definition should_track_file :: "Config \<Rightarrow> string \<Rightarrow> string \<Rightarrow> bool" where
  "should_track_file cfg repo_path file_path =
     (let relative_path = relpath file_path repo_path in
      if any_match relative_path (ignore_patterns cfg) then False
      else if any_match relative_path (file_patterns cfg) then True
      else False)"

subsection \<open>Clock readings and their formats\<close>

text \<open>
  \<^verbatim>\<open>datetime.now()\<close> as its fields; \<^verbatim>\<open>strftime\<close> writes each field in decimal,
  zero-padded to the width of its directive (\<^verbatim>\<open>%Y\<close> four digits, the others two).
\<close>

record datetime =
  year :: nat
  month :: nat
  day :: nat
  hour :: nat
  minute :: nat
  second :: nat

definition digit :: "nat \<Rightarrow> char" where
  "digit n = ''0123456789'' ! (n mod 10)"

fun decimal :: "nat \<Rightarrow> string" where
  "decimal n = (if n < 10 then [digit n] else decimal (n div 10) @ [digit n])"

declare decimal.simps [simp del]

definition zpad :: "nat \<Rightarrow> nat \<Rightarrow> string" where
  "zpad w n = replicate (w - length (decimal n)) (CHR ''0'') @ decimal n"

text \<open>\<^verbatim>\<open>strftime("%Y-%m-%d %H:%M:%S")\<close>, as \<^verbatim>\<open>_create_commit\<close> calls it.\<close>

definition strftime_commit :: "datetime \<Rightarrow> string" where
  "strftime_commit d =
     zpad 4 (year d) @ ''-'' @ zpad 2 (month d) @ ''-'' @ zpad 2 (day d) @ '' '' @
     zpad 2 (hour d) @ '':'' @ zpad 2 (minute d) @ '':'' @ zpad 2 (second d)"

text \<open>\<^verbatim>\<open>strftime("%Y%m%d_%H%M%S")\<close>, as \<^verbatim>\<open>_create_backup_branch\<close> calls it.\<close>

definition strftime_backup :: "datetime \<Rightarrow> string" where
  "strftime_backup d =
     zpad 4 (year d) @ zpad 2 (month d) @ zpad 2 (day d) @ ''_'' @
     zpad 2 (hour d) @ zpad 2 (minute d) @ zpad 2 (second d)"

subsection \<open>Exceptions and the log\<close>

datatype exn =
    FileNotFoundError string
  | TypeError
  | BadName
  | OSError string
  | GitCommandError string
  | IndexError

text \<open>One constructor for each \<^verbatim>\<open>logging\<close> call of the handler.\<close>

datatype log_entry =
    Created_commit "string list"
  | Error_creating_commit exn
  | Created_backup_branch string
  | Error_creating_backup_branch exn
  | Removed_old_backup_branch string

subsection \<open>The repository\<close>

text \<open>
  The part of a git repository the handler reads and writes through GitPython: the
  local branches with the commit each points to, in the order \<^verbatim>\<open>repo.heads\<close> lists
  them (sorted by name), what \<^verbatim>\<open>HEAD\<close> refers to, the paths staged since the last
  commit, and the commit objects written so far.
\<close>

record commit_obj =
  committed_datetime :: int
  message :: string
  changed :: "string list"

record head =
  head_name :: string
  head_commit :: commit_obj

datatype HEAD_ref = On_branch string | Detached commit_obj

record repo =
  heads :: "head list"
  HEAD :: HEAD_ref
  staged :: "string list"
  objects :: "commit_obj list"

definition branch_names :: "repo \<Rightarrow> string list" where
  "branch_names r = map head_name (heads r)"

text \<open>\<^verbatim>\<open>repo.active_branch\<close> raises \<^verbatim>\<open>TypeError\<close> on a detached \<^verbatim>\<open>HEAD\<close>.\<close>

definition active_branch :: "repo \<Rightarrow> exn + string" where
  "active_branch r = (case HEAD r of On_branch b \<Rightarrow> Inr b | Detached c \<Rightarrow> Inl TypeError)"

text \<open>The commit \<^verbatim>\<open>HEAD\<close> resolves to; none on a branch that has no commit yet.\<close>

definition head_commit_of :: "repo \<Rightarrow> commit_obj option" where
  "head_commit_of r =
     (case HEAD r of
        Detached c \<Rightarrow> Some c
      | On_branch b \<Rightarrow> map_option head_commit (find (\<lambda>h. head_name h = b) (heads r)))"

text \<open>
  \<^verbatim>\<open>repo.create_head(name)\<close>: a new branch at the commit of \<^verbatim>\<open>HEAD\<close>. It raises when
  \<^verbatim>\<open>HEAD\<close> does not resolve, and (not forced) when a branch of that name points to
  another commit; when a branch of that name points to the same commit, nothing changes.
\<close>

definition create_head :: "repo \<Rightarrow> string \<Rightarrow> exn + repo" where
  "create_head r n =
     (case head_commit_of r of
        None \<Rightarrow> Inl BadName
      | Some c \<Rightarrow>
          (case find (\<lambda>h. head_name h = n) (heads r) of
             Some h \<Rightarrow> if head_commit h = c then Inr r else Inl (OSError n)
           | None \<Rightarrow>
               Inr (r\<lparr>heads := insort_key head_name
                         \<lparr>head_name = n, head_commit = c\<rparr> (heads r)\<rparr>)))"

text \<open>\<^verbatim>\<open>branch.checkout()\<close>: \<^verbatim>\<open>HEAD\<close> moves to the branch.\<close>

definition checkout :: "repo \<Rightarrow> string \<Rightarrow> exn + repo" where
  "checkout r n =
     (if n \<in> set (branch_names r) then Inr (r\<lparr>HEAD := On_branch n\<rparr>)
      else Inl (GitCommandError n))"

text \<open>
  \<^verbatim>\<open>repo.delete_head(branch, force=True)\<close>, that is \<^verbatim>\<open>git branch -D\<close>: git refuses to
  delete the branch that is checked out.
\<close>

definition delete_head :: "repo \<Rightarrow> string \<Rightarrow> exn + repo" where
  "delete_head r n =
     (if HEAD r = On_branch n \<or> n \<notin> set (branch_names r) then Inl (GitCommandError n)
      else Inr (r\<lparr>heads := filter (\<lambda>h. head_name h \<noteq> n) (heads r)\<rparr>))"

text \<open>
  \<^verbatim>\<open>repo.index.add([path])\<close> raises when the file is not on disk;
  \<^verbatim>\<open>repo.index.commit(message)\<close> writes a commit of what is staged and moves the
  checked-out branch (or a detached \<^verbatim>\<open>HEAD\<close>) to it.
\<close>

definition index_add :: "string set \<Rightarrow> repo \<Rightarrow> string \<Rightarrow> exn + repo" where
  "index_add on_disk r p =
     (if p \<in> on_disk then
        Inr (r\<lparr>staged := (if p \<in> set (staged r) then staged r else staged r @ [p])\<rparr>)
      else Inl (FileNotFoundError p))"

definition move_head :: "string \<Rightarrow> commit_obj \<Rightarrow> head list \<Rightarrow> head list" where
  "move_head b c hs =
     (if b \<in> set (map head_name hs)
      then map (\<lambda>h. if head_name h = b then h\<lparr>head_commit := c\<rparr> else h) hs
      else insort_key head_name \<lparr>head_name = b, head_commit = c\<rparr> hs)"

definition index_commit :: "int \<Rightarrow> repo \<Rightarrow> string \<Rightarrow> repo" where
  "index_commit git_time r msg =
     (let c = \<lparr>committed_datetime = git_time, message = msg, changed = staged r\<rparr> in
      (case HEAD r of
         Detached old \<Rightarrow> r\<lparr>HEAD := Detached c, staged := [], objects := objects r @ [c]\<rparr>
       | On_branch b \<Rightarrow>
           r\<lparr>heads := move_head b c (heads r), staged := [], objects := objects r @ [c]\<rparr>))"

subsection \<open>The handler and what it reads from outside\<close>

record handler =
  repo_path :: string
  repo :: repo
  last_commit_time :: real
  pending_changes :: "string list"
  config :: Config
  last_backup_time :: real
  logged :: "log_entry list"

text \<open>
  \<^verbatim>\<open>pending_changes\<close> is a Python \<^verbatim>\<open>set\<close> of strings. It is kept as the list of its
  members in the order iteration yields them. \<^verbatim>\<open>add\<close> leaves the set alone when
  the member is there; a new member lands where its hash puts it, and string hashes are
  salted per process, so the place is an input (\<^verbatim>\<open>set_slot\<close>): the number of members
  iterated before the new one.
\<close>

definition set_add :: "(string \<Rightarrow> string list \<Rightarrow> nat) \<Rightarrow> string \<Rightarrow> string list \<Rightarrow> string list" where
  "set_add slot x s =
     (if x \<in> set s then s else take (slot x s) s @ x # drop (slot x s) s)"

text \<open>
  What one call of \<^verbatim>\<open>on_modified\<close> reads from outside: \<^verbatim>\<open>time.time()\<close> in
  \<^verbatim>\<open>_try_commit\<close>, \<^verbatim>\<open>datetime.now()\<close> in \<^verbatim>\<open>_create_commit\<close> and in
  \<^verbatim>\<open>_create_backup_branch\<close>, the time git stamps on a new commit, the files on disk
  (relative to the repository), and the placement of a new set member. The readings
  of \<^verbatim>\<open>time.time()\<close> are seconds, as real numbers.
\<close>

record env =
  time_time :: real
  now_commit :: datetime
  now_backup :: datetime
  git_time :: int
  on_disk :: "string set"
  set_slot :: "string \<Rightarrow> string list \<Rightarrow> nat"

record event =
  is_directory :: bool
  src_path :: string

text \<open>\<^verbatim>\<open>__init__\<close>: the two timestamps are two readings of \<^verbatim>\<open>time.time()\<close>.\<close>

definition init :: "string \<Rightarrow> repo \<Rightarrow> Config \<Rightarrow> real \<Rightarrow> real \<Rightarrow> handler" where
  "init path r cfg t1 t2 =
     \<lparr>repo_path = path, repo = r, last_commit_time = t1, pending_changes = [],
      config = cfg, last_backup_time = t2, logged = []\<rparr>"

subsection \<open>\<^verbatim>\<open>_create_commit\<close>\<close>

text \<open>
  An exception leaves the state as it is when raised, so a raising block returns the
  exception with that state (\<open>Inl\<close>).
\<close>

fun stage_all :: "string set \<Rightarrow> string list \<Rightarrow> repo \<Rightarrow> exn \<times> repo + repo" where
  "stage_all disk [] r = Inr r"
| "stage_all disk (file_path # rest) r =
     (case index_add disk r file_path of
        Inl x \<Rightarrow> Inl (x, r)
      | Inr r' \<Rightarrow> stage_all disk rest r')"

definition newline :: string where
  "newline = [CHR 0x0A]"

definition commit_message :: "datetime \<Rightarrow> string list \<Rightarrow> string" where
  "commit_message now pending =
     (''Cursor changes at '' @ strftime_commit now @ newline @ newline @
      ''Files changed:'' @ newline) @ join newline pending"

text \<open>The \<^verbatim>\<open>try\<close> block of \<^verbatim>\<open>_create_commit\<close>.\<close>

definition create_commit_try :: "env \<Rightarrow> handler \<Rightarrow> exn \<times> handler + handler" where
  "create_commit_try e self =
     (case stage_all (on_disk e) (pending_changes self) (repo self) of
        Inl (x, r) \<Rightarrow> Inl (x, self\<lparr>repo := r\<rparr>)
      | Inr r \<Rightarrow>
          Inr (self\<lparr>repo := index_commit (git_time e) r
                               (commit_message (now_commit e) (pending_changes self)),
                    logged := logged self @ [Created_commit (pending_changes self)],
                    pending_changes := []\<rparr>))"

definition create_commit :: "env \<Rightarrow> handler \<Rightarrow> handler" where
  "create_commit e self =
     (case create_commit_try e self of
        Inl (x, s) \<Rightarrow> s\<lparr>logged := logged s @ [Error_creating_commit x]\<rparr>
      | Inr s \<Rightarrow> s)"

subsection \<open>\<^verbatim>\<open>_cleanup_backup_branches\<close>\<close>

text \<open>
  The \<^verbatim>\<open>while\<close> loop over the sorted list: \<^verbatim>\<open>pop(0)\<close> and \<^verbatim>\<open>delete_head\<close>. With a
  negative bound the loop reaches \<^verbatim>\<open>pop\<close> on the empty list, which raises.
\<close>

fun cleanup_loop :: "head list \<Rightarrow> handler \<Rightarrow> exn \<times> handler + handler" where
  "cleanup_loop [] self =
     (if int 0 > max_backup_branches (config self) then Inl (IndexError, self) else Inr self)"
| "cleanup_loop (oldest_branch # backup_branches) self =
     (if int (length (oldest_branch # backup_branches)) > max_backup_branches (config self) then
        (case delete_head (repo self) (head_name oldest_branch) of
           Inl x \<Rightarrow> Inl (x, self)
         | Inr r \<Rightarrow>
             cleanup_loop backup_branches
               (self\<lparr>repo := r,
                     logged := logged self @ [Removed_old_backup_branch (head_name oldest_branch)]\<rparr>))
      else Inr self)"

definition is_backup :: "Config \<Rightarrow> head \<Rightarrow> bool" where
  "is_backup cfg branch = startswith (head_name branch) (backup_branch_prefix cfg)"

definition sorted_backups :: "Config \<Rightarrow> repo \<Rightarrow> head list" where
  "sorted_backups cfg r =
     sort_key (\<lambda>x. committed_datetime (head_commit x)) (filter (is_backup cfg) (heads r))"

definition cleanup_backup_branches :: "handler \<Rightarrow> exn \<times> handler + handler" where
  "cleanup_backup_branches self =
     cleanup_loop (sorted_backups (config self) (repo self)) self"

subsection \<open>\<^verbatim>\<open>_create_backup_branch\<close>\<close>

definition backup_branch_name :: "Config \<Rightarrow> datetime \<Rightarrow> string" where
  "backup_branch_name cfg now = backup_branch_prefix cfg @ ''-'' @ strftime_backup now"

text \<open>The \<^verbatim>\<open>try\<close> block of \<^verbatim>\<open>_create_backup_branch\<close>.\<close>

definition create_backup_branch_try :: "env \<Rightarrow> handler \<Rightarrow> exn \<times> handler + handler" where
  "create_backup_branch_try e self =
     (let branch_name = backup_branch_name (config self) (now_backup e) in
      case active_branch (repo self) of
        Inl x \<Rightarrow> Inl (x, self)
      | Inr current \<Rightarrow>
          (case create_head (repo self) branch_name of
             Inl x \<Rightarrow> Inl (x, self)
           | Inr r1 \<Rightarrow>
               (case checkout r1 branch_name of
                  Inl x \<Rightarrow> Inl (x, self\<lparr>repo := r1\<rparr>)
                | Inr r2 \<Rightarrow>
                    (case checkout r2 current of
                       Inl x \<Rightarrow> Inl (x, self\<lparr>repo := r2\<rparr>)
                     | Inr r3 \<Rightarrow>
                         (case cleanup_backup_branches (self\<lparr>repo := r3\<rparr>) of
                            Inl xs \<Rightarrow> Inl xs
                          | Inr s \<Rightarrow>
                              Inr (s\<lparr>logged := logged s @ [Created_backup_branch branch_name]\<rparr>))))))"

definition create_backup_branch :: "env \<Rightarrow> handler \<Rightarrow> handler" where
  "create_backup_branch e self =
     (case create_backup_branch_try e self of
        Inl (x, s) \<Rightarrow> s\<lparr>logged := logged s @ [Error_creating_backup_branch x]\<rparr>
      | Inr s \<Rightarrow> s)"

subsection \<open>\<^verbatim>\<open>_try_commit\<close> and \<^verbatim>\<open>on_modified\<close>\<close>

definition try_commit :: "env \<Rightarrow> handler \<Rightarrow> handler" where
  "try_commit e self =
     (let current_time = time_time e in
      if current_time - last_commit_time self \<ge> commit_cooldown (config self)
         \<and> pending_changes self \<noteq> [] then
        (let s1 = (create_commit e self)\<lparr>last_commit_time := current_time\<rparr> in
         if create_backup_branches (config s1) \<and> current_time - last_backup_time s1 \<ge> 3600 then
           (create_backup_branch e s1)\<lparr>last_backup_time := current_time\<rparr>
         else s1)
      else self)"

definition on_modified :: "env \<Rightarrow> event \<Rightarrow> handler \<Rightarrow> handler" where
  "on_modified e ev self =
     (if is_directory ev then self
      else
        (let file_path = src_path ev in
         if \<not> should_track_file (config self) (repo_path self) file_path then self
         else
           (let relative_path = relpath file_path (repo_path self) in
            try_commit e
              (self\<lparr>pending_changes :=
                      set_add (set_slot e) relative_path (pending_changes self)\<rparr>))))"

text \<open>The handler over a sequence of events, each with what it reads from outside.\<close>

fun run :: "(env \<times> event) list \<Rightarrow> handler \<Rightarrow> handler" where
  "run [] self = self"
| "run ((e, ev) # rest) self = run rest (on_modified e ev self)"

subsection \<open>Observations on a state\<close>

text \<open>The state a block ends in, whether it raised or not.\<close>

definition state_of :: "exn \<times> handler + handler \<Rightarrow> handler" where
  "state_of res = (case res of Inl (x, s) \<Rightarrow> s | Inr s \<Rightarrow> s)"

text \<open>
  Every call of \<^verbatim>\<open>_create_commit\<close> logs one line (the commit, or the error), and so
  does every call of \<^verbatim>\<open>_create_backup_branch\<close>: the log counts the calls.
\<close>

fun is_commit_entry :: "log_entry \<Rightarrow> bool" where
  "is_commit_entry (Created_commit ps) = True"
| "is_commit_entry (Error_creating_commit x) = True"
| "is_commit_entry _ = False"

fun is_rotation_entry :: "log_entry \<Rightarrow> bool" where
  "is_rotation_entry (Created_backup_branch n) = True"
| "is_rotation_entry (Error_creating_backup_branch x) = True"
| "is_rotation_entry _ = False"

fun is_created_backup :: "log_entry \<Rightarrow> bool" where
  "is_created_backup (Created_backup_branch n) = True"
| "is_created_backup _ = False"

definition commit_attempts :: "handler \<Rightarrow> nat" where
  "commit_attempts self = length (filter is_commit_entry (logged self))"

definition rotations_invoked :: "handler \<Rightarrow> nat" where
  "rotations_invoked self = length (filter is_rotation_entry (logged self))"

definition rotations_completed :: "handler \<Rightarrow> nat" where
  "rotations_completed self = length (filter is_created_backup (logged self))"


text \<open>The relative paths of the events that pass the filter of \<^verbatim>\<open>on_modified\<close>.\<close>

definition recorded :: "handler \<Rightarrow> event \<Rightarrow> bool" where
  "recorded self ev =
     (\<not> is_directory ev \<and> should_track_file (config self) (repo_path self) (src_path ev))"

definition recorded_paths :: "handler \<Rightarrow> (env \<times> event) list \<Rightarrow> string list" where
  "recorded_paths self evs =
     map (\<lambda>(e, ev). relpath (src_path ev) (repo_path self))
       (filter (\<lambda>(e, ev). recorded self ev) evs)"

subsection \<open>Observations on the repository\<close>



text \<open>The fields of a \<^verbatim>\<open>datetime.now()\<close> with a four-digit year.\<close>

definition clock_datetime :: "datetime \<Rightarrow> bool" where
  "clock_datetime d =
     (1000 \<le> year d \<and> year d \<le> 9999 \<and> 1 \<le> month d \<and> month d \<le> 12 \<and>
      1 \<le> day d \<and> day d \<le> 31 \<and> hour d \<le> 23 \<and> minute d \<le> 59 \<and> second d \<le> 59)"

subsection \<open>Example inputs\<close>

text \<open>
  A repository with one commit on \<^verbatim>\<open>main\<close>, and a configuration with a cooldown of 5 s
  and a retention bound of two.
\<close>

definition example_commit :: commit_obj where
  "example_commit = \<lparr>committed_datetime = 1000, message = ''initial'', changed = []\<rparr>"

definition example_repo :: repo where
  "example_repo =
     \<lparr>heads = [\<lparr>head_name = ''main'', head_commit = example_commit\<rparr>],
      HEAD = On_branch ''main'', staged = [], objects = [example_commit]\<rparr>"

definition example_config :: Config where
  "example_config =
     \<lparr>file_patterns = [''*.py'', ''*.js''], ignore_patterns = [''build/*''],
      backup_branch_prefix = ''cursor-backup'', max_backup_branches = 2,
      commit_cooldown = 5, create_backup_branches = True\<rparr>"

definition example_datetime :: "nat \<Rightarrow> datetime" where
  "example_datetime h = \<lparr>year = 2024, month = 3, day = 9, hour = h, minute = 5, second = 7\<rparr>"

text \<open>
  What an event at clock reading \<open>t\<close> reads, in a process whose set iterates in
  insertion order (\<open>insertion_env\<close>) and in one whose set iterates newest first
  (\<open>newest_first_env\<close>). The files \<^verbatim>\<open>a.py\<close> and \<^verbatim>\<open>b.py\<close> are on disk.
\<close>

definition insertion_env :: "real \<Rightarrow> nat \<Rightarrow> env" where
  "insertion_env t h =
     \<lparr>time_time = t, now_commit = example_datetime h, now_backup = example_datetime h,
      git_time = 2000 + int h, on_disk = {''a.py'', ''b.py''},
      set_slot = (\<lambda>x s. length s)\<rparr>"

definition newest_first_env :: "real \<Rightarrow> nat \<Rightarrow> env" where
  "newest_first_env t h = (insertion_env t h)\<lparr>set_slot := (\<lambda>x s. 0)\<rparr>"

definition modified :: "string \<Rightarrow> event" where
  "modified p = \<lparr>is_directory = False, src_path = p\<rparr>"

text \<open>
  Changes to \<^verbatim>\<open>a.py\<close> at 0 s, \<^verbatim>\<open>b.py\<close> at 2 s and \<^verbatim>\<open>a.py\<close> again at 4 s, in
  either process; two changes half an hour and a second short of an hour in; three
  changes an hour apart.
\<close>

definition window_events :: "(env \<times> event) list" where
  "window_events =
     [(insertion_env 0 1, modified ''/repo/a.py''),
      (insertion_env 2 1, modified ''/repo/b.py''),
      (insertion_env 4 1, modified ''/repo/a.py'')]"

definition newest_first_window :: "(env \<times> event) list" where
  "newest_first_window =
     [(newest_first_env 0 1, modified ''/repo/a.py''),
      (newest_first_env 2 1, modified ''/repo/b.py''),
      (newest_first_env 4 1, modified ''/repo/a.py'')]"

definition first_hour_events :: "(env \<times> event) list" where
  "first_hour_events =
     [(insertion_env 1800 1, modified ''/repo/a.py''),
      (insertion_env 3599 2, modified ''/repo/b.py'')]"


text \<open>
  Three backup branches, listed by name, with a retention bound of one; the example
  repository with a bound of one; and \<^verbatim>\<open>git reset --hard\<close> on \<^verbatim>\<open>main\<close>, done by the
  user between two events: the branch points to the given commit.
\<close>

definition three_backups :: handler where
  "three_backups =
     (init ''/repo''
        \<lparr>heads =
           [\<lparr>head_name = ''cursor-backup-1'',
             head_commit = \<lparr>committed_datetime = 30, message = ''c'', changed = []\<rparr>\<rparr>,
            \<lparr>head_name = ''cursor-backup-2'',
             head_commit = \<lparr>committed_datetime = 10, message = ''a'', changed = []\<rparr>\<rparr>,
            \<lparr>head_name = ''cursor-backup-3'',
             head_commit = \<lparr>committed_datetime = 20, message = ''b'', changed = []\<rparr>\<rparr>,
            \<lparr>head_name = ''main'', head_commit = example_commit\<rparr>],
         HEAD = On_branch ''main'', staged = [], objects = []\<rparr>
        (example_config\<lparr>max_backup_branches := 1\<rparr>) 0 0)"




section \<open>Properties\<close>

subsection \<open>What each step leaves alone\<close>


lemma state_of_simps [simp]: "state_of (Inl (x, s)) = s" "state_of (Inr s) = s"
  by (simp_all add: state_of_def)

lemma delete_head_frame:
  "delete_head r n = Inr r' \<Longrightarrow>
     HEAD r' = HEAD r \<and> objects r' = objects r \<and> staged r' = staged r \<and>
     heads r' = filter (\<lambda>h. head_name h \<noteq> n) (heads r)"
  by (auto simp: delete_head_def split: if_splits)

text \<open>The cleanup loop touches the branches and the log, nothing else.\<close>

lemma cleanup_loop_frame:
  "config (state_of (cleanup_loop bs s)) = config s \<and>
   pending_changes (state_of (cleanup_loop bs s)) = pending_changes s \<and>
   last_commit_time (state_of (cleanup_loop bs s)) = last_commit_time s \<and>
   last_backup_time (state_of (cleanup_loop bs s)) = last_backup_time s \<and>
   repo_path (state_of (cleanup_loop bs s)) = repo_path s \<and>
   HEAD (repo (state_of (cleanup_loop bs s))) = HEAD (repo s) \<and>
   objects (repo (state_of (cleanup_loop bs s))) = objects (repo s) \<and>
   staged (repo (state_of (cleanup_loop bs s))) = staged (repo s) \<and>
   commit_attempts (state_of (cleanup_loop bs s)) = commit_attempts s \<and>
   rotations_invoked (state_of (cleanup_loop bs s)) = rotations_invoked s \<and>
   rotations_completed (state_of (cleanup_loop bs s)) = rotations_completed s"
proof (induction bs arbitrary: s)
  case Nil
  then show ?case by simp
next
  case (Cons b bs)
  show ?case
  proof (cases "int (length (b # bs)) > max_backup_branches (config s)")
    case False
    then show ?thesis by simp
  next
    case True
    show ?thesis
    proof (cases "delete_head (repo s) (head_name b)")
      case (Inl x)
      with True show ?thesis by simp
    next
      case (Inr r)
      from delete_head_frame[OF Inr] True Inr
        Cons.IH[of "s\<lparr>repo := r, logged := logged s @ [Removed_old_backup_branch (head_name b)]\<rparr>"]
      show ?thesis
        by (simp add: commit_attempts_def rotations_invoked_def rotations_completed_def)
    qed
  qed
qed

lemma checkout_frame:
  "checkout r n = Inr r' \<Longrightarrow> r' = r\<lparr>HEAD := On_branch n\<rparr> \<and> n \<in> set (branch_names r)"
  by (auto simp: checkout_def split: if_splits)

lemma find_Some_mem: "find P xs = Some x \<Longrightarrow> x \<in> set xs \<and> P x"
  by (induction xs) (auto split: if_splits)

lemma find_name: "(find (\<lambda>h. head_name h = n) (heads r) = None) = (n \<notin> set (branch_names r))"
  by (auto simp: find_None_iff branch_names_def)

lemma create_head_frame:
  "create_head r n = Inr r' \<Longrightarrow>
     HEAD r' = HEAD r \<and> objects r' = objects r \<and> staged r' = staged r \<and>
     (\<exists>c. head_commit_of r = Some c \<and>
          (if n \<in> set (branch_names r) then r' = r
           else heads r' = insort_key head_name \<lparr>head_name = n, head_commit = c\<rparr> (heads r)))"
proof -
  assume a: "create_head r n = Inr r'"
  then obtain c where c: "head_commit_of r = Some c"
    by (auto simp: create_head_def split: option.splits)
  show ?thesis
  proof (cases "find (\<lambda>h. head_name h = n) (heads r)")
    case None
    with a c find_name[of n r] show ?thesis by (auto simp: create_head_def)
  next
    case (Some h)
    with find_name[of n r] have "n \<in> set (branch_names r)" by simp
    with a c Some show ?thesis by (auto simp: create_head_def split: if_splits)
  qed
qed

lemma active_branch_Inr: "active_branch r = Inr b \<longleftrightarrow> HEAD r = On_branch b"
  by (auto simp: active_branch_def split: HEAD_ref.splits)

text \<open>
  The shape of a rotation that ran to its end: the branch was created at the commit of
  \<^verbatim>\<open>HEAD\<close>, checked out, the original branch checked out again, and the cleanup
  returned.
\<close>

lemma create_backup_branch_try_Inr:
  assumes "create_backup_branch_try e self = Inr s"
  shows "\<exists>current r1 s'.
           HEAD (repo self) = On_branch current \<and>
           create_head (repo self) (backup_branch_name (config self) (now_backup e)) = Inr r1 \<and>
           cleanup_backup_branches (self\<lparr>repo := r1\<lparr>HEAD := On_branch current\<rparr>\<rparr>) = Inr s' \<and>
           s = s'\<lparr>logged := logged s' @
                 [Created_backup_branch (backup_branch_name (config self) (now_backup e))]\<rparr>"
  using assms
  by (auto simp: create_backup_branch_try_def Let_def active_branch_Inr
           split: sum.splits dest!: checkout_frame)


lemma create_head_keeps_current:
  assumes "create_head r n = Inr r1" and "HEAD r = On_branch current"
  shows "current \<in> set (branch_names r1)"
proof -
  from create_head_frame[OF assms(1)] obtain c where c: "head_commit_of r = Some c"
    and hs: "if n \<in> set (branch_names r) then r1 = r
             else heads r1 = insort_key head_name \<lparr>head_name = n, head_commit = c\<rparr> (heads r)"
    by blast
  from c assms(2) obtain h where "find (\<lambda>h. head_name h = current) (heads r) = Some h"
    by (auto simp: head_commit_of_def)
  then have "h \<in> set (heads r)" "head_name h = current"
    using find_Some_mem by fastforce+
  then have "current \<in> set (branch_names r)" by (auto simp: branch_names_def)
  with hs show ?thesis
    by (cases "n \<in> set (branch_names r)") (auto simp: branch_names_def set_insort_key)
qed

lemma checkout_back_succeeds:
  assumes "create_head r n = Inr r1" and "HEAD r = On_branch current"
  shows "checkout (r1\<lparr>HEAD := On_branch n\<rparr>) current = Inr (r1\<lparr>HEAD := On_branch current\<rparr>)"
  using create_head_keeps_current[OF assms]
  by (simp add: checkout_def branch_names_def)

lemma checkout_new_succeeds:
  assumes "create_head r n = Inr r1"
  shows "checkout r1 n = Inr (r1\<lparr>HEAD := On_branch n\<rparr>)"
proof -
  from create_head_frame[OF assms] have "n \<in> set (branch_names r1)"
    by (cases "n \<in> set (branch_names r)") (auto simp: branch_names_def set_insort_key)
  then show ?thesis by (simp add: checkout_def)
qed

text \<open>The three outcomes of the \<^verbatim>\<open>try\<close> block of a rotation.\<close>

lemma create_backup_branch_try_cases:
  obtains
    (no_branch) x where "create_backup_branch_try e self = Inl (x, self)"
  | (cleaned) current r1 where
      "HEAD (repo self) = On_branch current"
      "create_head (repo self) (backup_branch_name (config self) (now_backup e)) = Inr r1"
      "create_backup_branch_try e self =
         (case cleanup_backup_branches (self\<lparr>repo := r1\<lparr>HEAD := On_branch current\<rparr>\<rparr>) of
            Inl xs \<Rightarrow> Inl xs
          | Inr s \<Rightarrow> Inr (s\<lparr>logged := logged s @
                [Created_backup_branch (backup_branch_name (config self) (now_backup e))]\<rparr>))"
proof (cases "active_branch (repo self)")
  case (Inl x)
  then have "create_backup_branch_try e self = Inl (x, self)"
    by (simp add: create_backup_branch_try_def)
  then show ?thesis by (rule no_branch)
next
  case (Inr current)
  then have cur: "HEAD (repo self) = On_branch current" by (simp add: active_branch_Inr)
  show ?thesis
  proof (cases "create_head (repo self) (backup_branch_name (config self) (now_backup e))")
    case (Inl x)
    with Inr have "create_backup_branch_try e self = Inl (x, self)"
      by (simp add: create_backup_branch_try_def)
    then show ?thesis by (rule no_branch)
  next
    case r1: (Inr r1)
    show ?thesis
    proof (rule cleaned[OF cur r1])
      show "create_backup_branch_try e self =
         (case cleanup_backup_branches (self\<lparr>repo := r1\<lparr>HEAD := On_branch current\<rparr>\<rparr>) of
            Inl xs \<Rightarrow> Inl xs
          | Inr s \<Rightarrow> Inr (s\<lparr>logged := logged s @
                [Created_backup_branch (backup_branch_name (config self) (now_backup e))]\<rparr>))"
        using Inr r1 checkout_new_succeeds[OF r1] checkout_back_succeeds[OF r1 cur]
        by (simp add: create_backup_branch_try_def)
    qed
  qed
qed

lemma create_backup_branch_frame:
  "config (create_backup_branch e self) = config self \<and>
   pending_changes (create_backup_branch e self) = pending_changes self \<and>
   last_commit_time (create_backup_branch e self) = last_commit_time self \<and>
   last_backup_time (create_backup_branch e self) = last_backup_time self \<and>
   repo_path (create_backup_branch e self) = repo_path self \<and>
   HEAD (repo (create_backup_branch e self)) = HEAD (repo self) \<and>
   objects (repo (create_backup_branch e self)) = objects (repo self) \<and>
   staged (repo (create_backup_branch e self)) = staged (repo self) \<and>
   commit_attempts (create_backup_branch e self) = commit_attempts self \<and>
   rotations_invoked (create_backup_branch e self) = rotations_invoked self + 1"
proof (cases e self rule: create_backup_branch_try_cases)
  case (no_branch x)
  then show ?thesis
    by (simp add: create_backup_branch_def commit_attempts_def rotations_invoked_def)
next
  case (cleaned current r1)
  let ?s1 = "self\<lparr>repo := r1\<lparr>HEAD := On_branch current\<rparr>\<rparr>"
  note fr = cleanup_loop_frame[of "sorted_backups (config ?s1) (repo ?s1)" ?s1,
      folded cleanup_backup_branches_def]
  from create_head_frame[OF cleaned(2)] have r1: "objects r1 = objects (repo self)"
    "staged r1 = staged (repo self)" by auto
  show ?thesis
  proof (cases "cleanup_backup_branches ?s1")
    case (Inl xs)
    obtain x s where xs: "xs = (x, s)" by (cases xs)
    from fr Inl xs cleaned r1 show ?thesis
      by (simp add: create_backup_branch_def commit_attempts_def rotations_invoked_def)
  next
    case (Inr s)
    from fr Inr cleaned r1 show ?thesis
      by (simp add: create_backup_branch_def commit_attempts_def rotations_invoked_def)
  qed
qed


lemma index_add_frame:
  "index_add disk r p = Inr r' \<Longrightarrow>
     heads r' = heads r \<and> HEAD r' = HEAD r \<and> objects r' = objects r \<and> p \<in> disk \<and>
     set (staged r') = insert p (set (staged r))"
  by (auto simp: index_add_def split: if_splits)

lemma stage_all_Inr:
  "stage_all disk ps r = Inr r' \<Longrightarrow>
     heads r' = heads r \<and> HEAD r' = HEAD r \<and> objects r' = objects r \<and> set ps \<subseteq> disk \<and>
     set (staged r') = set (staged r) \<union> set ps"
proof (induction ps arbitrary: r)
  case Nil
  then show ?case by simp
next
  case (Cons p ps)
  then obtain r1 where r1: "index_add disk r p = Inr r1" and rest: "stage_all disk ps r1 = Inr r'"
    by (auto split: sum.splits)
  from index_add_frame[OF r1] Cons.IH[OF rest] show ?case by auto
qed

lemma stage_all_Inl:
  "stage_all disk ps r = Inl (x, r') \<Longrightarrow>
     heads r' = heads r \<and> HEAD r' = HEAD r \<and> objects r' = objects r \<and> \<not> set ps \<subseteq> disk"
proof (induction ps arbitrary: r)
  case Nil
  then show ?case by simp
next
  case (Cons p ps)
  show ?case
  proof (cases "index_add disk r p")
    case (Inl y)
    with Cons.prems show ?thesis by (auto simp: index_add_def split: if_splits)
  next
    case (Inr r1)
    with Cons.prems have rest: "stage_all disk ps r1 = Inl (x, r')" by simp
    from index_add_frame[OF Inr] Cons.IH[OF rest] show ?thesis by auto
  qed
qed


lemma create_commit_frame:
  "config (create_commit e self) = config self \<and>
   last_commit_time (create_commit e self) = last_commit_time self \<and>
   last_backup_time (create_commit e self) = last_backup_time self \<and>
   repo_path (create_commit e self) = repo_path self \<and>
   commit_attempts (create_commit e self) = commit_attempts self + 1 \<and>
   rotations_invoked (create_commit e self) = rotations_invoked self \<and>
   rotations_completed (create_commit e self) = rotations_completed self"
  by (auto simp: create_commit_def create_commit_try_def commit_attempts_def
        rotations_invoked_def rotations_completed_def split: sum.splits)

lemma create_commit_pending:
  "pending_changes (create_commit e self) =
     (case create_commit_try e self of Inl xs \<Rightarrow> pending_changes self | Inr s \<Rightarrow> [])"
  by (auto simp: create_commit_def create_commit_try_def split: sum.splits)

lemma try_commit_not_due:
  "\<not> (time_time e - last_commit_time self \<ge> commit_cooldown (config self)
      \<and> pending_changes self \<noteq> []) \<Longrightarrow> try_commit e self = self"
  by (auto simp: try_commit_def Let_def)

subsection \<open>The flush decision\<close>


subsection \<open>A failed commit\<close>

lemma create_commit_try_Inl:
  assumes "create_commit_try e self = Inl (x, s)"
  shows "\<exists>r. s = self\<lparr>repo := r\<rparr> \<and> objects r = objects (repo self) \<and> heads r = heads (repo self)
             \<and> HEAD r = HEAD (repo self) \<and> \<not> set (pending_changes self) \<subseteq> on_disk e"
proof (cases "stage_all (on_disk e) (pending_changes self) (repo self)")
  case (Inl xr)
  obtain y r where xr: "xr = (y, r)" by (cases xr)
  from stage_all_Inl[of "on_disk e" "pending_changes self" "repo self" y r] Inl xr assms
  show ?thesis by (auto simp: create_commit_try_def)
next
  case (Inr r)
  with assms show ?thesis by (simp add: create_commit_try_def)
qed

text \<open>
  C5. When the \<^verbatim>\<open>try\<close> block of \<^verbatim>\<open>_create_commit\<close> raises on a due flush, the
  exception is caught and logged (\<^verbatim>\<open>_create_commit\<close> returns the state the block
  stopped in), the pending set is as it was, no commit object is written, and
  \<^verbatim>\<open>_try_commit\<close> still sets \<open>last_commit_time\<close> to the clock reading. The pending set
  is emptied only when the block returns.
\<close>

theorem C5_failed_commit:
  assumes "create_commit_try e self = Inl (x, s)"
    and "pending_changes self \<noteq> []"
    and "time_time e - last_commit_time self \<ge> commit_cooldown (config self)"
  shows "create_commit e self = s\<lparr>logged := logged s @ [Error_creating_commit x]\<rparr>
       \<and> pending_changes (try_commit e self) = pending_changes self
       \<and> last_commit_time (try_commit e self) = time_time e
       \<and> objects (repo (try_commit e self)) = objects (repo self)
       \<and> pending_changes (create_commit e self) =
           (case create_commit_try e self of Inl xs \<Rightarrow> pending_changes self | Inr s' \<Rightarrow> [])"
proof -
  from create_commit_try_Inl[OF assms(1)] obtain r where
    s: "s = self\<lparr>repo := r\<rparr>" and r: "objects r = objects (repo self)" by blast
  have cc: "create_commit e self = s\<lparr>logged := logged s @ [Error_creating_commit x]\<rparr>"
    using assms(1) by (simp add: create_commit_def)
  let ?s1 = "(create_commit e self)\<lparr>last_commit_time := time_time e\<rparr>"
  have p1: "pending_changes ?s1 = pending_changes self" "last_commit_time ?s1 = time_time e"
    "objects (repo ?s1) = objects (repo self)"
    using cc s r by simp_all
  have tc: "try_commit e self = ?s1 \<or>
            try_commit e self = (create_backup_branch e ?s1)\<lparr>last_backup_time := time_time e\<rparr>"
    using assms(2,3) by (simp add: try_commit_def Let_def)
  from tc p1 create_backup_branch_frame[of e ?s1]
  have "pending_changes (try_commit e self) = pending_changes self
       \<and> last_commit_time (try_commit e self) = time_time e
       \<and> objects (repo (try_commit e self)) = objects (repo self)"
    by auto
  with cc create_commit_pending[of e self] show ?thesis by simp
qed

text \<open>
  C5, at an input: \<^verbatim>\<open>gone.py\<close> is pending and no longer on disk when the cooldown of
  5 seconds has passed.
\<close>

theorem C5_failed_commit_witness:
  "create_commit_try (insertion_env 5 1)
      ((init ''/repo'' example_repo example_config 0 0)\<lparr>pending_changes := [''gone.py'']\<rparr>)
     = Inl (FileNotFoundError ''gone.py'',
            (init ''/repo'' example_repo example_config 0 0)\<lparr>pending_changes := [''gone.py'']\<rparr>)
   \<and> pending_changes (try_commit (insertion_env 5 1)
      ((init ''/repo'' example_repo example_config 0 0)\<lparr>pending_changes := [''gone.py'']\<rparr>))
     = [''gone.py'']
   \<and> last_commit_time (try_commit (insertion_env 5 1)
      ((init ''/repo'' example_repo example_config 0 0)\<lparr>pending_changes := [''gone.py'']\<rparr>)) = 5"
proof -
  let ?S = "(init ''/repo'' example_repo example_config 0 0)\<lparr>pending_changes := [''gone.py'']\<rparr>"
  let ?E = "insertion_env 5 1"
  have h1: "create_commit_try ?E ?S = Inl (FileNotFoundError ''gone.py'', ?S)"
    by (simp add: create_commit_try_def init_def insertion_env_def index_add_def)
  have h2: "pending_changes ?S \<noteq> []" by simp
  have h3: "time_time ?E - last_commit_time ?S \<ge> commit_cooldown (config ?S)"
    by (simp add: init_def insertion_env_def example_config_def)
  from C5_failed_commit[OF h1 h2 h3] h1 show ?thesis
    by (simp add: insertion_env_def)
qed

subsection \<open>When a rotation is started\<close>



subsection \<open>The checked-out branch across a rotation\<close>

text \<open>
  C8. When the \<^verbatim>\<open>try\<close> block of \<^verbatim>\<open>_create_backup_branch\<close> runs to its end,
  \<^verbatim>\<open>HEAD\<close> refers to the same branch after it as before it, although in between the
  new branch was checked out and the current one checked out again.
\<close>

theorem C8_rotation_keeps_active_branch:
  assumes "create_backup_branch_try e self = Inr s"
  shows "HEAD (repo s) = HEAD (repo self)
       \<and> HEAD (repo (create_backup_branch e self)) = HEAD (repo self)
       \<and> (\<exists>current r1.
            HEAD (repo self) = On_branch current \<and>
            create_head (repo self) (backup_branch_name (config self) (now_backup e)) = Inr r1 \<and>
            checkout r1 (backup_branch_name (config self) (now_backup e)) =
              Inr (r1\<lparr>HEAD := On_branch (backup_branch_name (config self) (now_backup e))\<rparr>) \<and>
            checkout (r1\<lparr>HEAD := On_branch (backup_branch_name (config self) (now_backup e))\<rparr>)
              current = Inr (r1\<lparr>HEAD := On_branch current\<rparr>))"
proof -
  let ?n = "backup_branch_name (config self) (now_backup e)"
  from create_backup_branch_try_Inr[OF assms] obtain current r1 s' where
    cur: "HEAD (repo self) = On_branch current" and
    r1: "create_head (repo self) ?n = Inr r1" and
    cl: "cleanup_backup_branches (self\<lparr>repo := r1\<lparr>HEAD := On_branch current\<rparr>\<rparr>) = Inr s'" and
    s: "s = s'\<lparr>logged := logged s' @ [Created_backup_branch ?n]\<rparr>"
    by blast
  let ?s1 = "self\<lparr>repo := r1\<lparr>HEAD := On_branch current\<rparr>\<rparr>"
  from cleanup_loop_frame[of "sorted_backups (config ?s1) (repo ?s1)" ?s1,
      folded cleanup_backup_branches_def] cl
  have "HEAD (repo s') = On_branch current" by simp
  with s cur have 1: "HEAD (repo s) = HEAD (repo self)" by simp
  have 2: "HEAD (repo (create_backup_branch e self)) = HEAD (repo self)"
    using create_backup_branch_frame[of e self] by simp
  from 1 2 cur r1 checkout_new_succeeds[OF r1] checkout_back_succeeds[OF r1 cur]
  show ?thesis by blast
qed

text \<open>C8, at an input: a rotation on the branch \<^verbatim>\<open>main\<close>.\<close>

theorem C8_rotation_keeps_active_branch_witness:
  "\<exists>s. create_backup_branch_try (insertion_env 3600 1)
          (init ''/repo'' example_repo example_config 0 0) = Inr s
      \<and> HEAD (repo s) = On_branch ''main''
      \<and> map head_name (heads (repo s)) = [''cursor-backup-20240309_010507'', ''main'']"
proof -
  let ?S = "init ''/repo'' example_repo example_config 0 0"
  let ?E = "insertion_env 3600 1"
  have ev: "\<exists>s. create_backup_branch_try ?E ?S = Inr s
      \<and> map head_name (heads (repo s)) = [''cursor-backup-20240309_010507'', ''main'']"
    by (simp add: create_backup_branch_try_def init_def example_repo_def example_config_def
          insertion_env_def active_branch_def create_head_def head_commit_of_def
          branch_names_def backup_branch_name_def strftime_backup_def zpad_def decimal.simps
          digit_def example_datetime_def checkout_def cleanup_backup_branches_def
          sorted_backups_def is_backup_def startswith_def Let_def)
  then obtain s where sn: "create_backup_branch_try ?E ?S = Inr s
      \<and> map head_name (heads (repo s)) = [''cursor-backup-20240309_010507'', ''main'']" ..
  then have s: "create_backup_branch_try ?E ?S = Inr s" ..
  from C8_rotation_keeps_active_branch[OF s] have "HEAD (repo s) = HEAD (repo ?S)" by simp
  moreover have "HEAD (repo ?S) = On_branch ''main''" by (simp add: init_def example_repo_def)
  ultimately have "HEAD (repo s) = On_branch ''main''" by (rule trans)
  with sn show ?thesis by (intro exI[of _ s]) (simp only: simp_thms)
qed

subsection \<open>The retention cleanup\<close>

lemma mset_sorted_backups:
  "mset (sorted_backups cfg r) = mset (filter (is_backup cfg) (heads r))"
  by (simp add: sorted_backups_def)

lemma set_sorted_backups:
  "set (sorted_backups cfg r) = {h \<in> set (heads r). is_backup cfg h}"
  by (simp add: sorted_backups_def)

lemma distinct_names_sorted_backups:
  assumes "distinct (branch_names r)"
  shows "distinct (map head_name (sorted_backups cfg r))"
proof -
  have "mset (map head_name (sorted_backups cfg r))
          = mset (map head_name (filter (is_backup cfg) (heads r)))"
    by (simp add: mset_sorted_backups)
  moreover have "distinct (map head_name (filter (is_backup cfg) (heads r)))"
    using assms by (simp add: branch_names_def distinct_map_filter)
  ultimately show ?thesis by (metis mset_eq_imp_distinct_iff)
qed

text \<open>Deleting the first branch of the sorted list leaves the rest of that list.\<close>

lemma sorted_backups_delete:
  assumes d: "distinct (branch_names r)"
    and sb: "sorted_backups cfg r = b # rest"
    and del: "delete_head r (head_name b) = Inr r'"
  shows "sorted_backups cfg r' = rest \<and> distinct (branch_names r')
       \<and> filter (\<lambda>h. \<not> is_backup cfg h) (heads r') = filter (\<lambda>h. \<not> is_backup cfg h) (heads r)"
proof -
  let ?Q = "\<lambda>h. head_name h \<noteq> head_name b"
  let ?f = "\<lambda>x. committed_datetime (head_commit x)"
  from delete_head_frame[OF del] have hs: "heads r' = filter ?Q (heads r)" by simp
  from distinct_names_sorted_backups[OF d, of cfg] sb
  have dn: "distinct (map head_name (b # rest))" by simp
  then have "\<forall>h\<in>set rest. head_name h \<noteq> head_name b" by (metis distinct.simps(2) imageI list.simps(9) set_map)
  then have rest: "filter ?Q rest = rest" by (simp add: filter_id_conv)
  have "sorted_backups cfg r' = sort_key ?f (filter ?Q (filter (is_backup cfg) (heads r)))"
    by (simp add: sorted_backups_def hs conj_commute)
  also have "\<dots> = filter ?Q (sort_key ?f (filter (is_backup cfg) (heads r)))"
    by (simp add: filter_sort)
  also have "\<dots> = filter ?Q (b # rest)" using sb by (simp add: sorted_backups_def)
  also have "\<dots> = rest" using rest by simp
  finally have 1: "sorted_backups cfg r' = rest" .
  have 2: "distinct (branch_names r')"
    using d by (simp add: branch_names_def hs distinct_map_filter)
  have "b \<in> set (sorted_backups cfg r)" using sb by simp
  then have pb: "is_backup cfg b" by (simp add: set_sorted_backups)
  have 3: "filter (\<lambda>h. \<not> is_backup cfg h) (heads r') = filter (\<lambda>h. \<not> is_backup cfg h) (heads r)"
  proof -
    have "\<And>h. \<not> is_backup cfg h \<Longrightarrow> head_name h \<noteq> head_name b"
      using pb by (auto simp: is_backup_def)
    then show ?thesis unfolding hs filter_filter
      by (intro filter_cong refl) blast
  qed
  from 1 2 3 show ?thesis by simp
qed

lemma cleanup_loop_again:
  assumes "distinct (branch_names (repo s))"
    and "sorted_backups (config s) (repo s) = bs"
  shows "cleanup_backup_branches (state_of (cleanup_loop bs s)) = cleanup_loop bs s"
  using assms
proof (induction bs arbitrary: s)
  case Nil
  then show ?case by (simp add: cleanup_backup_branches_def)
next
  case (Cons b rest)
  show ?case
  proof (cases "int (length (b # rest)) > max_backup_branches (config s)")
    case False
    with Cons.prems show ?thesis by (simp add: cleanup_backup_branches_def)
  next
    case True
    show ?thesis
    proof (cases "delete_head (repo s) (head_name b)")
      case (Inl x)
      with True Cons.prems show ?thesis by (simp add: cleanup_backup_branches_def)
    next
      case (Inr r')
      let ?s1 = "s\<lparr>repo := r', logged := logged s @ [Removed_old_backup_branch (head_name b)]\<rparr>"
      from sorted_backups_delete[OF Cons.prems(1) Cons.prems(2) Inr]
      have "distinct (branch_names (repo ?s1))" "sorted_backups (config ?s1) (repo ?s1) = rest"
        by simp_all
      from Cons.IH[OF this] True Inr show ?thesis by simp
    qed
  qed
qed

lemma cleanup_loop_Inr:
  assumes "distinct (branch_names (repo s))"
    and "sorted_backups (config s) (repo s) = bs"
    and "cleanup_loop bs s = Inr s'"
  shows "0 \<le> max_backup_branches (config s) \<and>
         sorted_backups (config s') (repo s')
           = drop (length bs - nat (max_backup_branches (config s))) bs \<and>
         logged s' = logged s @ map (\<lambda>h. Removed_old_backup_branch (head_name h))
                                  (take (length bs - nat (max_backup_branches (config s))) bs) \<and>
         filter (\<lambda>h. \<not> is_backup (config s) h) (heads (repo s'))
           = filter (\<lambda>h. \<not> is_backup (config s) h) (heads (repo s)) \<and>
         distinct (branch_names (repo s'))"
  using assms
proof (induction bs arbitrary: s)
  case Nil
  then show ?case by (auto split: if_splits)
next
  case (Cons b rest)
  show ?case
  proof (cases "int (length (b # rest)) > max_backup_branches (config s)")
    case False
    with Cons.prems have "s' = s" by simp
    moreover from False have "length (b # rest) - nat (max_backup_branches (config s)) = 0"
      "0 \<le> max_backup_branches (config s)" by auto
    ultimately show ?thesis using Cons.prems by simp
  next
    case True
    show ?thesis
    proof (cases "delete_head (repo s) (head_name b)")
      case (Inl x)
      with True Cons.prems show ?thesis by simp
    next
      case (Inr r')
      let ?s1 = "s\<lparr>repo := r', logged := logged s @ [Removed_old_backup_branch (head_name b)]\<rparr>"
      from sorted_backups_delete[OF Cons.prems(1) Cons.prems(2) Inr]
      have a: "distinct (branch_names (repo ?s1))" "sorted_backups (config ?s1) (repo ?s1) = rest"
        and nb: "filter (\<lambda>h. \<not> is_backup (config s) h) (heads r')
                 = filter (\<lambda>h. \<not> is_backup (config s) h) (heads (repo s))"
        by simp_all
      from True Inr Cons.prems(3) have "cleanup_loop rest ?s1 = Inr s'" by simp
      from Cons.IH[OF a this] have ih:
        "0 \<le> max_backup_branches (config s)"
        "sorted_backups (config s') (repo s')
           = drop (length rest - nat (max_backup_branches (config s))) rest"
        "logged s' = (logged s @ [Removed_old_backup_branch (head_name b)]) @
             map (\<lambda>h. Removed_old_backup_branch (head_name h))
               (take (length rest - nat (max_backup_branches (config s))) rest)"
        "filter (\<lambda>h. \<not> is_backup (config s) h) (heads (repo s'))
           = filter (\<lambda>h. \<not> is_backup (config s) h) (heads r')"
        "distinct (branch_names (repo s'))"
        using cleanup_loop_frame[of rest ?s1] \<open>cleanup_loop rest ?s1 = Inr s'\<close> by simp_all
      from True ih(1) have k: "length (b # rest) - nat (max_backup_branches (config s))
                 = Suc (length rest - nat (max_backup_branches (config s)))" by auto
      from ih nb show ?thesis unfolding k by simp
    qed
  qed
qed

text \<open>
  C7. \<^verbatim>\<open>_cleanup_backup_branches\<close> takes the branches whose name starts with the
  backup prefix, in ascending order of the committed time of the commit each points to.
  When it returns, it has deleted the first ones of that order, as many as the count
  exceeded \<open>max_backup_branches\<close>, logged them in that order and left every other branch
  alone. Run again on the state it ended in (returned or raised), it ends in that same
  state: the second run deletes nothing. Branch names are distinct, as git's are.
\<close>

theorem C7_cleanup_idempotent:
  assumes "distinct (branch_names (repo self))"
  shows "state_of (cleanup_backup_branches (state_of (cleanup_backup_branches self)))
           = state_of (cleanup_backup_branches self)
       \<and> cleanup_backup_branches (state_of (cleanup_backup_branches self))
           = cleanup_backup_branches self
       \<and> set (sorted_backups (config self) (repo self))
           = {h \<in> set (heads (repo self)).
                startswith (head_name h) (backup_branch_prefix (config self))}
       \<and> sorted (map (\<lambda>h. committed_datetime (head_commit h))
                   (sorted_backups (config self) (repo self)))
       \<and> (\<forall>s'. cleanup_backup_branches self = Inr s' \<longrightarrow>
             sorted_backups (config self) (repo s')
               = drop (length (sorted_backups (config self) (repo self))
                         - nat (max_backup_branches (config self)))
                   (sorted_backups (config self) (repo self)) \<and>
             logged s' = logged self @
                map (\<lambda>h. Removed_old_backup_branch (head_name h))
                  (take (length (sorted_backups (config self) (repo self))
                           - nat (max_backup_branches (config self)))
                     (sorted_backups (config self) (repo self))) \<and>
             filter (\<lambda>h. \<not> is_backup (config self) h) (heads (repo s'))
               = filter (\<lambda>h. \<not> is_backup (config self) h) (heads (repo self)))"
proof -
  have again: "cleanup_backup_branches (state_of (cleanup_backup_branches self))
           = cleanup_backup_branches self"
    using cleanup_loop_again[OF assms refl] by (simp add: cleanup_backup_branches_def)
  have a: "set (sorted_backups (config self) (repo self))
           = {h \<in> set (heads (repo self)).
                startswith (head_name h) (backup_branch_prefix (config self))}"
    by (simp add: set_sorted_backups is_backup_def)
  have b: "sorted (map (\<lambda>h. committed_datetime (head_commit h))
                   (sorted_backups (config self) (repo self)))"
    by (simp add: sorted_backups_def)
  have c: "sorted_backups (config self) (repo s')
               = drop (length (sorted_backups (config self) (repo self))
                         - nat (max_backup_branches (config self)))
                   (sorted_backups (config self) (repo self)) \<and>
             logged s' = logged self @
                map (\<lambda>h. Removed_old_backup_branch (head_name h))
                  (take (length (sorted_backups (config self) (repo self))
                           - nat (max_backup_branches (config self)))
                     (sorted_backups (config self) (repo self))) \<and>
             filter (\<lambda>h. \<not> is_backup (config self) h) (heads (repo s'))
               = filter (\<lambda>h. \<not> is_backup (config self) h) (heads (repo self))"
    if "cleanup_backup_branches self = Inr s'" for s'
  proof -
    from that have l: "cleanup_loop (sorted_backups (config self) (repo self)) self = Inr s'"
      by (simp add: cleanup_backup_branches_def)
    from cleanup_loop_frame[of "sorted_backups (config self) (repo self)" self] l
    have "config s' = config self" by simp
    with cleanup_loop_Inr[OF assms refl l] show ?thesis by simp
  qed
  from again a b c show ?thesis by simp
qed

text \<open>
  C7, at an input: of three backup branches with commit times 30, 10 and 20 and a bound
  of one, the cleanup deletes the second and the third and a second run changes nothing.
\<close>

theorem C7_cleanup_idempotent_witness:
  "distinct (branch_names (repo three_backups))
   \<and> map head_name (heads (repo (state_of (cleanup_backup_branches three_backups))))
       = [''cursor-backup-1'', ''main'']
   \<and> logged (state_of (cleanup_backup_branches three_backups))
       = [Removed_old_backup_branch ''cursor-backup-2'',
          Removed_old_backup_branch ''cursor-backup-3'']
   \<and> state_of (cleanup_backup_branches (state_of (cleanup_backup_branches three_backups)))
       = state_of (cleanup_backup_branches three_backups)"
proof -
  have d: "distinct (branch_names (repo three_backups))"
    by (simp add: three_backups_def init_def branch_names_def)
  have ev: "map head_name (heads (repo (state_of (cleanup_backup_branches three_backups))))
       = [''cursor-backup-1'', ''main'']
   \<and> logged (state_of (cleanup_backup_branches three_backups))
       = [Removed_old_backup_branch ''cursor-backup-2'',
          Removed_old_backup_branch ''cursor-backup-3'']"
    by (simp add: three_backups_def init_def example_config_def cleanup_backup_branches_def
          sorted_backups_def is_backup_def startswith_def delete_head_def branch_names_def)
  from C7_cleanup_idempotent[OF d] have
    "state_of (cleanup_backup_branches (state_of (cleanup_backup_branches three_backups)))
       = state_of (cleanup_backup_branches three_backups)" by (rule conjunct1)
  with d ev show ?thesis by (simp only: simp_thms)
qed

subsection \<open>Rotation and retention\<close>




























text \<open>The definitions a concrete run unfolds.\<close>

lemmas eval_defs =
  on_modified_def modified_def init_def example_config_def example_repo_def
  insertion_env_def should_track_file_def relpath_def abspath_list_def fnmatch_def
  set_add_def try_commit_def create_commit_def create_commit_try_def index_add_def
  index_commit_def move_head_def Let_def
  create_backup_branch_def create_backup_branch_try_def active_branch_def create_head_def
  head_commit_of_def branch_names_def backup_branch_name_def strftime_backup_def
  strftime_commit_def zpad_def decimal.simps digit_def example_datetime_def checkout_def
  cleanup_backup_branches_def sorted_backups_def is_backup_def startswith_def delete_head_def
  commit_message_def newline_def



subsection \<open>One commit for a window of changes\<close>

lemma take_drop_set: "set (take n s) \<union> set (drop n s) = set s"
  by (metis append_take_drop_id set_append)

lemma take_drop_mset: "mset (take n s) + mset (drop n s) = mset s"
  by (metis append_take_drop_id mset_append)

lemma set_add_set: "set (set_add slot x s) = insert x (set s)"
  by (auto simp: set_add_def take_drop_set dest: in_set_takeD in_set_dropD)

lemma set_add_distinct: "distinct s \<Longrightarrow> distinct (set_add slot x s)"
proof (cases "x \<in> set s")
  case True
  assume "distinct s"
  with True show ?thesis by (simp add: set_add_def)
next
  case False
  assume d: "distinct s"
  have "mset (take (slot x s) s @ x # drop (slot x s) s) = mset (x # s)"
    by (simp add: take_drop_mset)
  moreover from d False have "distinct (x # s)" by simp
  ultimately have "distinct (take (slot x s) s @ x # drop (slot x s) s)"
    by (metis mset_eq_imp_distinct_iff)
  with False show ?thesis by (simp add: set_add_def)
qed

lemma recorded_pending [simp]:
  "recorded (self\<lparr>pending_changes := p\<rparr>) ev = recorded self ev"
  by (simp add: recorded_def)

lemma recorded_paths_pending [simp]:
  "recorded_paths (self\<lparr>pending_changes := p\<rparr>) evs = recorded_paths self evs"
  by (simp add: recorded_paths_def)

text \<open>One event: it is dropped, or its path joins the pending set and the flush is decided.\<close>

lemma on_modified_cases:
  "on_modified e ev self =
     (if recorded self ev
      then try_commit e
             (self\<lparr>pending_changes :=
                     set_add (set_slot e) (relpath (src_path ev) (repo_path self))
                       (pending_changes self)\<rparr>)
      else self)"
  by (simp add: on_modified_def recorded_def Let_def)

text \<open>Events inside the cooldown only grow the pending set.\<close>

lemma run_in_window:
  assumes "\<forall>(e, ev) \<in> set evs.
             time_time e - last_commit_time self < commit_cooldown (config self)"
  shows "\<exists>p. run evs self = self\<lparr>pending_changes := p\<rparr> \<and>
             set p = set (pending_changes self) \<union> set (recorded_paths self evs) \<and>
             (distinct (pending_changes self) \<longrightarrow> distinct p)"
  using assms
proof (induction evs arbitrary: self)
  case Nil
  have "self = self\<lparr>pending_changes := pending_changes self\<rparr>" by simp
  then show ?case by (intro exI[of _ "pending_changes self"]) (simp add: recorded_paths_def)
next
  case (Cons a evs)
  obtain e ev where a: "a = (e, ev)" by (cases a)
  from Cons.prems a have now: "time_time e - last_commit_time self < commit_cooldown (config self)"
    and rest: "\<forall>(e, ev) \<in> set evs.
             time_time e - last_commit_time self < commit_cooldown (config self)"
    by auto
  show ?case
  proof (cases "recorded self ev")
    case False
    then have "on_modified e ev self = self" by (simp add: on_modified_cases)
    with Cons.IH[OF rest] False a show ?thesis by (simp add: recorded_paths_def)
  next
    case True
    let ?p = "set_add (set_slot e) (relpath (src_path ev) (repo_path self)) (pending_changes self)"
    let ?s = "self\<lparr>pending_changes := ?p\<rparr>"
    from True now have om: "on_modified e ev self = ?s"
      by (simp add: on_modified_cases try_commit_not_due)
    from rest have "\<forall>(e, ev) \<in> set evs.
             time_time e - last_commit_time ?s < commit_cooldown (config ?s)" by simp
    from Cons.IH[OF this] obtain p where
      p: "run evs ?s = ?s\<lparr>pending_changes := p\<rparr>"
         "set p = set ?p \<union> set (recorded_paths self evs)"
         "distinct ?p \<longrightarrow> distinct p"
      by auto
    have rp: "recorded_paths self (a # evs)
                = relpath (src_path ev) (repo_path self) # recorded_paths self evs"
      using True a by (simp add: recorded_paths_def)
    from p om a rp set_add_distinct[of "pending_changes self" "set_slot e"
        "relpath (src_path ev) (repo_path self)"]
    show ?thesis by (auto simp: set_add_set)
  qed
qed


lemma index_commit_objects:
  "objects (index_commit g r m)
     = objects r @ [\<lparr>committed_datetime = g, message = m, changed = staged r\<rparr>]"
  by (simp add: index_commit_def Let_def split: HEAD_ref.splits)







subsection \<open>Right after construction\<close>

lemma move_head_name_set:
  "set (map head_name (move_head b c hs)) = insert b (set (map head_name hs))"
proof (cases "b \<in> set (map head_name hs)")
  case True
  let ?g = "\<lambda>h. if head_name h = b then h\<lparr>head_commit := c\<rparr> else h"
  have n: "map (head_name \<circ> ?g) hs = map head_name hs" by (induction hs) auto
  have "set (map head_name (map ?g hs)) = set (map head_name hs)"
    unfolding map_map n ..
  with True show ?thesis unfolding move_head_def by auto
next
  case False
  then show ?thesis by (simp add: move_head_def set_insort_key)
qed

lemma create_commit_names:
  "(\<forall>n \<in> set (branch_names (repo (create_commit e s))).
       n \<in> set (branch_names (repo s)) \<or> HEAD (repo s) = On_branch n)
   \<and> (\<forall>n. (HEAD (repo (create_commit e s)) = On_branch n) = (HEAD (repo s) = On_branch n))"
proof (cases "create_commit_try e s")
  case (Inl xs)
  obtain x s' where xs: "xs = (x, s')" by (cases xs)
  from create_commit_try_Inl[OF Inl[unfolded xs]] Inl xs show ?thesis
    by (auto simp: create_commit_def branch_names_def)
next
  case (Inr s')
  then obtain r where st: "stage_all (on_disk e) (pending_changes s) (repo s) = Inr r"
    and s': "repo s' = index_commit (git_time e) r
                               (commit_message (now_commit e) (pending_changes s))"
    by (auto simp: create_commit_try_def split: sum.splits)
  from stage_all_Inr[OF st] have fr: "heads r = heads (repo s)" "HEAD r = HEAD (repo s)"
    by simp_all
  have res: "repo (create_commit e s) = index_commit (git_time e) r
                               (commit_message (now_commit e) (pending_changes s))"
    using Inr s' by (simp add: create_commit_def)
  show ?thesis
  proof (cases "HEAD (repo s)")
    case (Detached old)
    with fr show ?thesis unfolding res
      by (simp add: index_commit_def Let_def branch_names_def)
  next
    case (On_branch b)
    with fr move_head_name_set[of b _ "heads (repo s)"] show ?thesis unfolding res
      by (simp add: index_commit_def Let_def branch_names_def)
  qed
qed

text \<open>Events before the backup interval has passed start no rotation.\<close>

lemma run_no_rotation:
  assumes "\<forall>(e, ev) \<in> set evs. time_time e - last_backup_time self < 3600"
  shows "rotations_invoked (run evs self) = rotations_invoked self \<and>
         last_backup_time (run evs self) = last_backup_time self \<and>
         (\<forall>n \<in> set (branch_names (repo (run evs self))).
             n \<in> set (branch_names (repo self)) \<or> HEAD (repo self) = On_branch n) \<and>
         (\<forall>n. (HEAD (repo (run evs self)) = On_branch n) = (HEAD (repo self) = On_branch n))"
  using assms
proof (induction evs arbitrary: self)
  case Nil
  then show ?case by simp
next
  case (Cons a evs)
  obtain e ev where a: "a = (e, ev)" by (cases a)
  from Cons.prems a have now: "time_time e - last_backup_time self < 3600"
    and rest: "\<forall>(e, ev) \<in> set evs. time_time e - last_backup_time self < 3600"
    by auto
  let ?s = "on_modified e ev self"
  have step: "rotations_invoked ?s = rotations_invoked self \<and>
         last_backup_time ?s = last_backup_time self \<and>
         (\<forall>n \<in> set (branch_names (repo ?s)).
             n \<in> set (branch_names (repo self)) \<or> HEAD (repo self) = On_branch n) \<and>
         (\<forall>n. (HEAD (repo ?s) = On_branch n) = (HEAD (repo self) = On_branch n))"
  proof (cases "recorded self ev")
    case False
    then show ?thesis by (simp add: on_modified_cases)
  next
    case True
    let ?p = "self\<lparr>pending_changes :=
                     set_add (set_slot e) (relpath (src_path ev) (repo_path self))
                       (pending_changes self)\<rparr>"
    have cases: "?s = ?p \<or> ?s = (create_commit e ?p)\<lparr>last_commit_time := time_time e\<rparr>"
      using True now create_commit_frame[of e ?p]
      by (simp add: on_modified_cases try_commit_def Let_def)
    from create_commit_frame[of e ?p] create_commit_names[of e ?p] cases show ?thesis
      by (auto simp: rotations_invoked_def)
  qed
  from step rest have "\<forall>(e, ev) \<in> set evs. time_time e - last_backup_time ?s < 3600" by simp
  from Cons.IH[OF this] step show ?case unfolding a by (simp only: run.simps) blast
qed

text \<open>
  C10. \<^verbatim>\<open>__init__\<close> sets \<open>last_commit_time\<close> and \<open>last_backup_time\<close> to clock readings
  \<open>t0 \<le> t1\<close> taken at construction. While every event arrives less than the cooldown
  after \<open>t0\<close>, no commit is attempted: the repository and the log are as at
  construction. While every event arrives less than 3600 s after \<open>t0\<close>, no rotation is
  started, \<open>last_backup_time\<close> stays \<open>t1\<close>, and the only branch a run can add is the
  checked-out one (by its first commit).
\<close>

theorem C10_startup:
  "((\<forall>(e, ev) \<in> set evs. time_time e - t0 < commit_cooldown cfg)
     \<longrightarrow> repo (run evs (init path r cfg t0 t1)) = r \<and>
         logged (run evs (init path r cfg t0 t1)) = [] \<and>
         last_commit_time (run evs (init path r cfg t0 t1)) = t0)
   \<and> (t0 \<le> t1 \<and> (\<forall>(e, ev) \<in> set evs. time_time e - t0 < 3600)
     \<longrightarrow> rotations_invoked (run evs (init path r cfg t0 t1)) = 0 \<and>
         last_backup_time (run evs (init path r cfg t0 t1)) = t1 \<and>
         (\<forall>n \<in> set (branch_names (repo (run evs (init path r cfg t0 t1)))).
             n \<in> set (branch_names r) \<or> HEAD r = On_branch n))"
proof (intro conjI impI)
  assume w: "\<forall>(e, ev) \<in> set evs. time_time e - t0 < commit_cooldown cfg"
  let ?H = "init path r cfg t0 t1"
  from w have "\<forall>(e, ev) \<in> set evs. time_time e - last_commit_time ?H < commit_cooldown (config ?H)"
    by (simp add: init_def)
  from run_in_window[OF this] obtain p where p: "run evs ?H = ?H\<lparr>pending_changes := p\<rparr>"
    by blast
  show "repo (run evs ?H) = r" "logged (run evs ?H) = []" "last_commit_time (run evs ?H) = t0"
    unfolding p by (simp_all add: init_def)
next
  assume w: "t0 \<le> t1 \<and> (\<forall>(e, ev) \<in> set evs. time_time e - t0 < 3600)"
  let ?H = "init path r cfg t0 t1"
  from w have "\<forall>(e, ev) \<in> set evs. time_time e - last_backup_time ?H < 3600"
    by (fastforce simp: init_def)
  from run_no_rotation[OF this]
  show "rotations_invoked (run evs ?H) = 0" "last_backup_time (run evs ?H) = t1"
    "\<forall>n \<in> set (branch_names (repo (run evs ?H))). n \<in> set (branch_names r) \<or> HEAD r = On_branch n"
    by (simp_all add: init_def rotations_invoked_def)
qed

text \<open>
  C10, at an input: three events inside a cooldown of 5 s leave the repository alone;
  two events inside the first hour are committed and start no rotation.
\<close>

theorem C10_startup_witness:
  "list_all (\<lambda>(e, ev). time_time e - 0 < commit_cooldown example_config) window_events
   \<and> repo (run window_events (init ''/repo'' example_repo example_config 0 0)) = example_repo
   \<and> logged (run window_events (init ''/repo'' example_repo example_config 0 0)) = []
   \<and> (0::real) \<le> 0
   \<and> list_all (\<lambda>(e, ev). time_time e - 0 < 3600) first_hour_events
   \<and> commit_attempts (run first_hour_events (init ''/repo'' example_repo example_config 0 0)) = 2
   \<and> rotations_invoked (run first_hour_events (init ''/repo'' example_repo example_config 0 0)) = 0
   \<and> last_backup_time (run first_hour_events (init ''/repo'' example_repo example_config 0 0)) = 0"
proof -
  let ?H = "init ''/repo'' example_repo example_config 0 0"
  have w1: "list_all (\<lambda>(e, ev). time_time e - 0 < commit_cooldown example_config) window_events"
    by (simp add: window_events_def insertion_env_def example_config_def)
  have w2: "list_all (\<lambda>(e, ev). time_time e - 0 < 3600) first_hour_events"
    by (simp add: first_hour_events_def insertion_env_def)
  have h1: "\<forall>(e, ev) \<in> set window_events. time_time e - 0 < commit_cooldown example_config"
    unfolding Ball_set by (rule w1)
  have h2a: "(0::real) \<le> 0" by simp
  have h2b: "\<forall>(e, ev) \<in> set first_hour_events. time_time e - 0 < 3600"
    unfolding Ball_set by (rule w2)
  note h2 = conjI[OF h2a h2b]
  have c: "commit_attempts (run first_hour_events ?H) = 2"
    by (simp add: first_hour_events_def commit_attempts_def eval_defs)
  from C10_startup[of window_events 0 example_config "''/repo''" example_repo 0] h1
  have a: "repo (run window_events ?H) = example_repo" "logged (run window_events ?H) = []"
    by simp_all
  from C10_startup[of first_hour_events 0 example_config "''/repo''" example_repo 0] h2
  have b: "rotations_invoked (run first_hour_events ?H) = 0"
    "last_backup_time (run first_hour_events ?H) = 0"
    by simp_all
  from w1 w2 h2a a b c show ?thesis by (intro conjI) assumption+
qed

subsection \<open>The commit message\<close>

lemma digit_is_digit: "digit n \<in> set ''0123456789''"
  unfolding digit_def by (rule nth_mem) simp

lemma digit_not_newline: "digit n \<noteq> CHR 0x0A"
  using digit_is_digit[of n] by auto

lemma digit_0: "digit 0 = CHR ''0''"
  by (simp add: digit_def)

lemma decimal_1: "n < 10 \<Longrightarrow> decimal n = [digit n]"
  by (simp add: decimal.simps)

lemma decimal_2: "10 \<le> n \<Longrightarrow> n < 100 \<Longrightarrow> decimal n = [digit (n div 10), digit n]"
  by (subst decimal.simps) (simp add: decimal_1)

lemma decimal_3:
  "100 \<le> n \<Longrightarrow> n < 1000 \<Longrightarrow> decimal n = [digit (n div 100), digit (n div 10), digit n]"
  by (subst decimal.simps) (simp add: decimal_2 div_mult2_eq[symmetric])

lemma decimal_4:
  "1000 \<le> n \<Longrightarrow> n < 10000 \<Longrightarrow>
     decimal n = [digit (n div 1000), digit (n div 100), digit (n div 10), digit n]"
  by (subst decimal.simps) (simp add: decimal_3 div_mult2_eq[symmetric])

lemma zpad_2: "n < 100 \<Longrightarrow> zpad 2 n = [digit (n div 10), digit n]"
  by (cases "n < 10") (simp_all add: zpad_def decimal_1 decimal_2 digit_0)

lemma zpad_4:
  "1000 \<le> n \<Longrightarrow> n < 10000 \<Longrightarrow>
     zpad 4 n = [digit (n div 1000), digit (n div 100), digit (n div 10), digit n]"
  by (simp add: zpad_def decimal_4)

lemma strftime_commit_shape:
  assumes "clock_datetime d"
  shows "strftime_commit d =
     [digit (year d div 1000), digit (year d div 100), digit (year d div 10), digit (year d),
      CHR ''-'', digit (month d div 10), digit (month d),
      CHR ''-'', digit (day d div 10), digit (day d),
      CHR '' '', digit (hour d div 10), digit (hour d),
      CHR '':'', digit (minute d div 10), digit (minute d),
      CHR '':'', digit (second d div 10), digit (second d)]"
  using assms by (simp add: strftime_commit_def clock_datetime_def zpad_2 zpad_4)

lemma split_on_no_sep: "sep \<notin> set xs \<Longrightarrow> split_on sep xs = [xs]"
  by (induction xs) auto

lemma split_on_append:
  "sep \<notin> set xs \<Longrightarrow> split_on sep (xs @ sep # ys) = xs # split_on sep ys"
  by (induction xs) auto

lemma split_on_join:
  "ps \<noteq> [] \<Longrightarrow> \<forall>p \<in> set ps. sep \<notin> set p \<Longrightarrow> split_on sep (join [sep] ps) = ps"
proof (induction ps rule: induct_list012)
  case 1
  then show ?case by simp
next
  case (2 x)
  then show ?case by (simp add: split_on_no_sep)
next
  case (3 x y zs)
  then have "split_on sep (join [sep] (y # zs)) = y # zs" by simp
  moreover from 3 have "sep \<notin> set x" by simp
  ultimately show ?case by (simp add: split_on_append)
qed

lemma commit_message_lines:
  assumes "clock_datetime now" and "ps \<noteq> []" and "\<forall>p \<in> set ps. CHR 0x0A \<notin> set p"
  shows "split_on (CHR 0x0A) (commit_message now ps)
           = [''Cursor changes at '' @ strftime_commit now, [], ''Files changed:''] @ ps"
proof -
  have ts: "CHR 0x0A \<notin> set (''Cursor changes at '' @ strftime_commit now)"
    by (simp add: strftime_commit_shape[OF assms(1)] digit_not_newline[symmetric])
  have fc: "CHR 0x0A \<notin> set ''Files changed:''" by simp
  have "commit_message now ps
          = (''Cursor changes at '' @ strftime_commit now) @ CHR 0x0A #
              ([] @ CHR 0x0A # (''Files changed:'' @ CHR 0x0A # join [CHR 0x0A] ps))"
    by (simp add: commit_message_def newline_def)
  then show ?thesis
    using split_on_append[OF ts] split_on_append[OF fc] split_on_join[OF assms(2,3)]
    by simp
qed

text \<open>
  C4, as the code has it. The message of the commit a flush writes is, line by line,
  \<^verbatim>\<open>Cursor changes at YYYY-MM-DD HH:MM:SS\<close> (four and two decimal digits per field), an
  empty line, \<^verbatim>\<open>Files changed:\<close>, and the pending paths, one per line, in the order
  the pending set iterates. Paths hold no newline and the clock reading is in range.
\<close>

theorem C4_commit_message:
  assumes "create_commit_try e self = Inr s"
    and "pending_changes self \<noteq> []"
    and "\<forall>p \<in> set (pending_changes self). CHR 0x0A \<notin> set p"
    and "clock_datetime (now_commit e)"
  shows "(\<exists>c. objects (repo s) = objects (repo self) @ [c] \<and>
             split_on (CHR 0x0A) (message c)
               = [''Cursor changes at '' @ strftime_commit (now_commit e), [], ''Files changed:'']
                 @ pending_changes self)
       \<and> strftime_commit (now_commit e) =
           [digit (year (now_commit e) div 1000), digit (year (now_commit e) div 100),
            digit (year (now_commit e) div 10), digit (year (now_commit e)),
            CHR ''-'', digit (month (now_commit e) div 10), digit (month (now_commit e)),
            CHR ''-'', digit (day (now_commit e) div 10), digit (day (now_commit e)),
            CHR '' '', digit (hour (now_commit e) div 10), digit (hour (now_commit e)),
            CHR '':'', digit (minute (now_commit e) div 10), digit (minute (now_commit e)),
            CHR '':'', digit (second (now_commit e) div 10), digit (second (now_commit e))]"
proof -
  from assms(1) obtain r where
    st: "stage_all (on_disk e) (pending_changes self) (repo self) = Inr r" and
    s: "repo s = index_commit (git_time e) r
                   (commit_message (now_commit e) (pending_changes self))"
    by (auto simp: create_commit_try_def split: sum.splits)
  from stage_all_Inr[OF st] have "objects r = objects (repo self)" by simp
  with s have "objects (repo s) = objects (repo self) @
      [\<lparr>committed_datetime = git_time e,
        message = commit_message (now_commit e) (pending_changes self),
        changed = staged r\<rparr>]"
    by (simp add: index_commit_objects)
  with commit_message_lines[OF assms(4,2,3)] strftime_commit_shape[OF assms(4)]
  show ?thesis by simp
qed

text \<open>C4, at an input: a pending set that iterates \<^verbatim>\<open>b.py\<close> before \<^verbatim>\<open>a.py\<close>.\<close>

theorem C4_commit_message_witness:
  "create_commit_try (insertion_env 5 2)
      ((init ''/repo'' example_repo example_config 0 0)\<lparr>pending_changes := [''b.py'', ''a.py'']\<rparr>)
     = Inr (state_of (create_commit_try (insertion_env 5 2)
      ((init ''/repo'' example_repo example_config 0 0)\<lparr>pending_changes := [''b.py'', ''a.py'']\<rparr>)))
   \<and> list_all (\<lambda>p. CHR 0x0A \<notin> set p) [''b.py'', ''a.py'']
   \<and> clock_datetime (now_commit (insertion_env 5 2))
   \<and> strftime_commit (now_commit (insertion_env 5 2)) = ''2024-03-09 02:05:07''
   \<and> map (split_on (CHR 0x0A) \<circ> message)
        (objects (repo (state_of (create_commit_try (insertion_env 5 2)
          ((init ''/repo'' example_repo example_config 0 0)
             \<lparr>pending_changes := [''b.py'', ''a.py'']\<rparr>)))))
       = [[''initial''],
          [''Cursor changes at 2024-03-09 02:05:07'', [], ''Files changed:'', ''b.py'', ''a.py'']]"
proof -
  let ?S = "(init ''/repo'' example_repo example_config 0 0)\<lparr>pending_changes := [''b.py'', ''a.py'']\<rparr>"
  let ?E = "insertion_env 5 2"
  have "\<exists>s. create_commit_try ?E ?S = Inr s"
    by (simp add: create_commit_try_def init_def insertion_env_def index_add_def)
  then obtain s where s: "create_commit_try ?E ?S = Inr s" ..
  then have h1: "create_commit_try ?E ?S = Inr (state_of (create_commit_try ?E ?S))" by simp
  have h2: "pending_changes ?S \<noteq> []" by simp
  have w3: "list_all (\<lambda>p. CHR 0x0A \<notin> set p) [''b.py'', ''a.py'']" by simp
  have h3: "\<forall>p \<in> set (pending_changes ?S). CHR 0x0A \<notin> set p" by simp
  have h4: "clock_datetime (now_commit ?E)"
    by (simp add: clock_datetime_def insertion_env_def example_datetime_def)
  from C4_commit_message[OF s h2 h3 h4] obtain c where
    c: "objects (repo s) = objects (repo ?S) @ [c]"
       "split_on (CHR 0x0A) (message c)
          = [''Cursor changes at '' @ strftime_commit (now_commit ?E), [], ''Files changed:'']
            @ pending_changes ?S"
    by auto
  have ts: "strftime_commit (now_commit ?E) = ''2024-03-09 02:05:07''"
    by (simp add: strftime_commit_def insertion_env_def example_datetime_def zpad_def
          decimal.simps digit_def)
  from c ts have "map (split_on (CHR 0x0A) \<circ> message) (objects (repo s))
       = [[''initial''],
          [''Cursor changes at 2024-03-09 02:05:07'', [], ''Files changed:'', ''b.py'', ''a.py'']]"
    by (simp add: init_def example_repo_def example_commit_def)
  with s have 5: "map (split_on (CHR 0x0A) \<circ> message)
        (objects (repo (state_of (create_commit_try ?E ?S))))
       = [[''initial''],
          [''Cursor changes at 2024-03-09 02:05:07'', [], ''Files changed:'', ''b.py'', ''a.py'']]"
    by simp
  from h1 w3 h4 ts 5 show ?thesis by (intro conjI) assumption+
qed

text \<open>
  C4 as stated fails on the order. The same events at the same clock readings, in two
  processes whose sets place new members differently, give the same pending set and two
  different messages; the second lists \<^verbatim>\<open>b.py\<close> before \<^verbatim>\<open>a.py\<close>, which is not the
  order of insertion either.
\<close>

theorem C4_counterexample:
  "pending_changes (run window_events (init ''/repo'' example_repo example_config 0 0))
     = [''a.py'', ''b.py'']
   \<and> pending_changes (run newest_first_window (init ''/repo'' example_repo example_config 0 0))
     = [''b.py'', ''a.py'']
   \<and> message (last (objects (repo
        (run (window_events @ [(insertion_env 5 2, modified ''/repo/a.py'')])
           (init ''/repo'' example_repo example_config 0 0)))))
     = ''Cursor changes at 2024-03-09 02:05:07'' @ newline @ newline @
       ''Files changed:'' @ newline @ ''a.py'' @ newline @ ''b.py''
   \<and> message (last (objects (repo
        (run (newest_first_window @ [(newest_first_env 5 2, modified ''/repo/a.py'')])
           (init ''/repo'' example_repo example_config 0 0)))))
     = ''Cursor changes at 2024-03-09 02:05:07'' @ newline @ newline @
       ''Files changed:'' @ newline @ ''b.py'' @ newline @ ''a.py''"
  by (simp add: window_events_def newest_first_window_def newest_first_env_def eval_defs)

subsection \<open>The trackability predicate on the default configuration\<close>

text \<open>An ignored path is dropped by \<^verbatim>\<open>on_modified\<close> whatever the file patterns say.\<close>

lemma ignored_never_recorded:
  assumes "any_match (relpath (src_path ev) (repo_path self)) (ignore_patterns (config self))"
  shows "on_modified e ev self = self"
  using assms by (simp add: on_modified_def should_track_file_def)

text \<open>
  C9, on the code. With the default configuration the path \<^verbatim>\<open>build/output.js\<close> matches
  no ignore pattern: \<^verbatim>\<open>fnmatch\<close> reads \<^verbatim>\<open>**/build/**\<close> as requiring a \<^verbatim>\<open>/\<close> before
  \<^verbatim>\<open>build\<close>. It matches the file pattern \<^verbatim>\<open>**/*.js\<close>, is tracked, and an event for it
  is recorded as a pending change. Below a directory, \<^verbatim>\<open>src/build/output.js\<close> is
  ignored.
\<close>

theorem C9_build_output_is_recorded:
  "\<not> fnmatch ''build/output.js'' ''**/build/**''
   \<and> \<not> any_match ''build/output.js'' (ignore_patterns DEFAULT_CONFIG)
   \<and> fnmatch ''build/output.js'' ''**/*.js''
   \<and> should_track_file DEFAULT_CONFIG ''/repo'' ''/repo/build/output.js''
   \<and> pending_changes
       (on_modified (insertion_env 0 1) (modified ''/repo/build/output.js'')
          (init ''/repo'' example_repo DEFAULT_CONFIG 0 0)) = [''build/output.js'']
   \<and> \<not> should_track_file DEFAULT_CONFIG ''/repo'' ''/repo/src/build/output.js''"
  by (simp add: DEFAULT_CONFIG_def eval_defs)

end
